theory Spec2Isabelle
  imports Main "HOL-Library.Multiset"
begin

section \<open>The post selector of the blog: data\<close>

text \<open>
  The unit under verification is the listing helper of the blog,
  \<^verbatim>\<open>getPublishedAndSortedPosts\<close>, with its helper \<^verbatim>\<open>isDateBefore\<close>:
  \<^verbatim>\<open>
  export const getPublishedAndSortedPosts = (allPosts: CollectionEntry<'blog'>[]) => {
    return allPosts
      .filter((post) => {
        if (import.meta.env.PROD) { return !post.data.draft; }
        return siteMetadata.devMode.showDraftPages ? true : !post.data.draft;
      })
      .sort((post1, post2) => {
        if (isDateBefore(post1.data.pubDate, post2.data.pubDate)) { return 1; }
        else { return -1; }
      });
  };
  export const isDateBefore = (date1: Date, date2: Date) =>
    date1.getTime() < date2.getTime();
  \<close>
\<close>

subsection \<open>Dates and their time values\<close>

text \<open>
  A JavaScript \<^verbatim>\<open>Date\<close> object holds a time value: either a whole number of
  milliseconds since the epoch or \<^verbatim>\<open>NaN\<close> (an "Invalid Date", which is what parsing an
  unparseable string gives). \<^verbatim>\<open>getTime()\<close> returns that time value. A time value that is
  a number is whole and at most 8.64e15 in absolute value, which is below \<open>2^53\<close>: doubles
  hold such numbers exactly, so comparing two of them is comparing integers.
\<close>

datatype time_value = NaN | Ms int

datatype date = Date (getTime: time_value)

text \<open>The relational operator \<^verbatim>\<open><\<close> on two time values: false as soon as one is NaN.\<close>

fun number_less :: "time_value \<Rightarrow> time_value \<Rightarrow> bool" where
  "number_less (Ms a) (Ms b) = (a < b)"
| "number_less _ _ = False"

text \<open>\<^verbatim>\<open>isDateBefore = (date1, date2) => date1.getTime() < date2.getTime()\<close>\<close>

definition isDateBefore :: "date \<Rightarrow> date \<Rightarrow> bool" where
  "isDateBefore date1 date2 = number_less (getTime date1) (getTime date2)"

subsection \<open>Posts and the environment\<close>

text \<open>
  Modelled from the spec: the content schema of the \<^verbatim>\<open>blog\<close> collection (the type behind
  \<^verbatim>\<open>CollectionEntry<'blog'>\<close>) is not among the sources. The selector reads
  \<^verbatim>\<open>post.data.pubDate\<close> (a \<^verbatim>\<open>Date\<close>, by the signature of \<^verbatim>\<open>isDateBefore\<close>) and
  \<^verbatim>\<open>post.data.draft\<close> (a boolean flag, false when the front matter leaves it out); the
  slug and the title stand for the descriptive fields the selector never looks at.
\<close>

record blog_data =
  title :: string
  pubDate :: date
  draft :: bool

record collection_entry =
  slug :: string
  data :: blog_data

text \<open>
  The two values the filter reads from outside: \<^verbatim>\<open>import.meta.env.PROD\<close> and
  \<^verbatim>\<open>siteMetadata.devMode.showDraftPages\<close> (from a configuration module that is not among
  the sources). They are parameters of the model. (\<open>PROD\<close> is taken by the syntax of
  products, hence the field name \<open>envPROD\<close>.)
\<close>

record env =
  envPROD :: bool
  showDraftPages :: bool

section \<open>The operations\<close>

subsection \<open>The filter callback and the comparator\<close>

definition keepPost :: "env \<Rightarrow> collection_entry \<Rightarrow> bool" where
  "keepPost e post =
     (if envPROD e then \<not> draft (data post)
      else (if showDraftPages e then True else \<not> draft (data post)))"

type_synonym 'a comparefn = "'a \<Rightarrow> 'a \<Rightarrow> int"

definition comparePosts :: "collection_entry comparefn" where
  "comparePosts post1 post2 =
     (if isDateBefore (pubDate (data post1)) (pubDate (data post2)) then 1 else - 1)"

subsection \<open>The array sort of the runtime\<close>

text \<open>
  \<^verbatim>\<open>Array.prototype.sort\<close> belongs to the JavaScript engine, not to the repository. The
  comparator above never returns 0, not even for a post and itself, so it is not a
  consistent comparator in the sense of the language standard, and the standard then leaves
  the resulting order to the engine. The model therefore follows the engine that builds the
  site, V8 under Node.js. Its sort (\<^verbatim>\<open>builtins/array-sort.tq\<close>) looks at the sign of the
  comparator's result only, and on an array of fewer than 64 elements it proceeds in two
  steps.

  \<^item> \<^verbatim>\<open>CountAndMakeRun\<close> takes the longest run at the start of the array. It calls
    \<^verbatim>\<open>comparefn(a[1], a[0])\<close>. A negative result announces a descending run: the run goes on
    as long as \<^verbatim>\<open>comparefn(a[i], a[i-1])\<close> is negative, and is then reversed. Otherwise the
    run goes on as long as \<^verbatim>\<open>comparefn(a[i], a[i-1])\<close> is not negative, and stays in place.

  \<^item> \<^verbatim>\<open>BinaryInsertionSort\<close> places each further element in turn into the sorted part
    to its left by binary search: it calls \<^verbatim>\<open>comparefn(pivot, a[mid])\<close> and goes on in the
    left half when the result is negative, in the right half otherwise; the pivot is stored
    at the position found, and the elements from there on move one place to the right.

  A longer array is cut into several runs made in this way, which V8 then merges. The
  merging is not modelled: the model makes one run of the whole array, whatever its length.
  The order-sensitive results below are stated for posts with valid dates, where the
  descending order is the same however the runs are cut; with an invalid date in an array
  of 64 elements or more the order V8 produces can differ from the model's.
\<close>

text \<open>
  The loop of \<^verbatim>\<open>CountAndMakeRun\<close>: how many of the elements after the first two go on
  with the run.
\<close>

fun run_extension :: "'a comparefn \<Rightarrow> bool \<Rightarrow> 'a \<Rightarrow> 'a list \<Rightarrow> nat" where
  "run_extension comparefn isDescending previousElement [] = 0"
| "run_extension comparefn isDescending previousElement (currentElement # rest) =
     (if isDescending then
        (if comparefn currentElement previousElement \<ge> 0 then 0
         else Suc (run_extension comparefn isDescending currentElement rest))
      else
        (if comparefn currentElement previousElement < 0 then 0
         else Suc (run_extension comparefn isDescending currentElement rest)))"

text \<open>The length of the run, and the array after the run has been reversed where needed.\<close>

definition CountAndMakeRun :: "'a comparefn \<Rightarrow> 'a list \<Rightarrow> nat \<times> 'a list" where
  "CountAndMakeRun comparefn workArray =
     (case workArray of
        elementHigh # elementLow # rest \<Rightarrow>
          (let isDescending = comparefn elementLow elementHigh < 0;
               runLength = 2 + run_extension comparefn isDescending elementLow rest
           in (runLength,
               if isDescending
               then rev (take runLength workArray) @ drop runLength workArray
               else workArray))
      | _ \<Rightarrow> (length workArray, workArray))"

definition midpoint :: "nat \<Rightarrow> nat \<Rightarrow> nat" where
  "midpoint left right = left + (right - left) div 2"

function find_insertion_point ::
  "'a comparefn \<Rightarrow> 'a \<Rightarrow> 'a list \<Rightarrow> nat \<Rightarrow> nat \<Rightarrow> nat" where
  "find_insertion_point comparefn pivot workArray left right =
     (if left < right then
        (if comparefn pivot (workArray ! midpoint left right) < 0
         then find_insertion_point comparefn pivot workArray left (midpoint left right)
         else find_insertion_point comparefn pivot workArray (midpoint left right + 1) right)
      else left)"
  by pat_completeness auto
termination
  by (relation "measure (\<lambda>(c, p, w, l, r). r - l)") (auto simp: midpoint_def)

definition insert_at :: "nat \<Rightarrow> 'a \<Rightarrow> 'a list \<Rightarrow> 'a list" where
  "insert_at k x workArray = take k workArray @ x # drop k workArray"

definition place_pivot :: "'a comparefn \<Rightarrow> 'a list \<Rightarrow> 'a \<Rightarrow> 'a list" where
  "place_pivot comparefn sortedPrefix pivot =
     insert_at (find_insertion_point comparefn pivot sortedPrefix 0 (length sortedPrefix))
       pivot sortedPrefix"

text \<open>The elements before \<open>start\<close> are the run; those from \<open>start\<close> on are placed one by one.\<close>

definition BinaryInsertionSort :: "'a comparefn \<Rightarrow> nat \<Rightarrow> 'a list \<Rightarrow> 'a list" where
  "BinaryInsertionSort comparefn start workArray =
     foldl (place_pivot comparefn) (take start workArray) (drop start workArray)"

definition array_sort :: "'a comparefn \<Rightarrow> 'a list \<Rightarrow> 'a list" where
  "array_sort comparefn xs =
     (if length xs < 2 then xs
      else (case CountAndMakeRun comparefn xs of
              (runLength, workArray) \<Rightarrow> BinaryInsertionSort comparefn runLength workArray))"

subsection \<open>The selector\<close>

definition getPublishedAndSortedPosts :: "env \<Rightarrow> collection_entry list \<Rightarrow> collection_entry list" where
  "getPublishedAndSortedPosts e allPosts =
     array_sort comparePosts (filter (keepPost e) allPosts)"

subsection \<open>The selector on a store of arrays\<close>

text \<open>
  Arrays are objects: \<^verbatim>\<open>filter\<close> allocates a new array and returns a reference to it,
  \<^verbatim>\<open>sort\<close> reorders the array it is called on in place and returns the same reference.
  To say what a call does to the caller's array, the store is made explicit: the list of
  the arrays allocated so far, a reference being the position of an array in it. A
  reference that does not point into the store cannot arise in the language; the model
  answers \<open>None\<close> for it.
\<close>

type_synonym ref = nat

type_synonym store = "collection_entry list list"

definition Array_filter ::
  "(collection_entry \<Rightarrow> bool) \<Rightarrow> ref \<Rightarrow> store \<Rightarrow> (ref \<times> store) option" where
  "Array_filter callback this h =
     (if this < length h then Some (length h, h @ [filter callback (h ! this)]) else None)"

definition Array_sort ::
  "collection_entry comparefn \<Rightarrow> ref \<Rightarrow> store \<Rightarrow> (ref \<times> store) option" where
  "Array_sort comparefn this h =
     (if this < length h then Some (this, h[this := array_sort comparefn (h ! this)]) else None)"

definition getPublishedAndSortedPosts_store ::
  "env \<Rightarrow> ref \<Rightarrow> store \<Rightarrow> (ref \<times> store) option" where
  "getPublishedAndSortedPosts_store e allPosts h =
     (case Array_filter (keepPost e) allPosts h of
        None \<Rightarrow> None
      | Some (kept, h') \<Rightarrow> Array_sort comparePosts kept h')"

subsection \<open>How a call completes\<close>

text \<open>
  The body of the selector has no \<^verbatim>\<open>throw\<close>, and none of its operations throws on
  values of the declared types: \<^verbatim>\<open>filter\<close> and \<^verbatim>\<open>sort\<close> on an array with callbacks that
  return, property reads on an entry, \<^verbatim>\<open>getTime\<close> on a \<^verbatim>\<open>Date\<close> (also on an invalid one),
  \<^verbatim>\<open><\<close> on numbers (also on NaN). So every call returns. \<open>InvalidRecord\<close> is the error class
  the specification names; the source never raises it.
\<close>

datatype error = InvalidRecord

datatype 'a completion = Return 'a | Throw error

definition getPublishedAndSortedPosts_call ::
  "env \<Rightarrow> collection_entry list \<Rightarrow> collection_entry list completion" where
  "getPublishedAndSortedPosts_call e allPosts = Return (getPublishedAndSortedPosts e allPosts)"

subsection \<open>Notions used in the statements and proofs\<close>

text \<open>The time value of a post as an integer (0 stands in for NaN, which has no order).\<close>

definition timestamp :: "collection_entry \<Rightarrow> int" where
  "timestamp post = (case getTime (pubDate (data post)) of Ms t \<Rightarrow> t | NaN \<Rightarrow> 0)"

text \<open>
  On the elements of \<open>S\<close> the comparator is negative exactly when its first argument has
  the greater or the same key.
\<close>

definition sign_agrees :: "'a comparefn \<Rightarrow> ('a \<Rightarrow> int) \<Rightarrow> 'a set \<Rightarrow> bool" where
  "sign_agrees cmp key S \<longleftrightarrow> (\<forall>x\<in>S. \<forall>y\<in>S. (cmp x y < 0) = (key y \<le> key x))"

definition descending :: "('a \<Rightarrow> int) \<Rightarrow> 'a list \<Rightarrow> bool" where
  "descending key ws = sorted_wrt (\<lambda>a b. key b \<le> key a) ws"

subsection \<open>Sample posts\<close>

text \<open>
  Three posts as in the example of the specification (1 January, 1 June and 1 December
  2021, the June post a draft), a second post published at the same instant as the January
  one, and a post whose date did not parse.
\<close>

definition january :: collection_entry where
  "january = \<lparr>slug = ''january'', data = \<lparr>title = ''January'', pubDate = Date (Ms 1609459200000), draft = False\<rparr>\<rparr>"

definition june :: collection_entry where
  "june = \<lparr>slug = ''june'', data = \<lparr>title = ''June'', pubDate = Date (Ms 1622505600000), draft = True\<rparr>\<rparr>"

definition december :: collection_entry where
  "december = \<lparr>slug = ''december'', data = \<lparr>title = ''December'', pubDate = Date (Ms 1638316800000), draft = False\<rparr>\<rparr>"

definition january_too :: collection_entry where
  "january_too = \<lparr>slug = ''january-too'', data = \<lparr>title = ''January too'', pubDate = Date (Ms 1609459200000), draft = False\<rparr>\<rparr>"

definition undated :: collection_entry where
  "undated = \<lparr>slug = ''undated'', data = \<lparr>title = ''Undated'', pubDate = Date NaN, draft = False\<rparr>\<rparr>"

definition production :: env where
  "production = \<lparr>envPROD = True, showDraftPages = False\<rparr>"

definition dev_hiding_drafts :: env where
  "dev_hiding_drafts = \<lparr>envPROD = False, showDraftPages = False\<rparr>"

definition dev_showing_drafts :: env where
  "dev_showing_drafts = \<lparr>envPROD = False, showDraftPages = True\<rparr>"

section \<open>Properties of the helper and of the comparator\<close>

lemma isDateBefore_Ms [simp]:
  "isDateBefore (Date (Ms a)) (Date (Ms b)) = (a < b)"
  by (simp add: isDateBefore_def)

lemma number_less_irrefl [simp]: "\<not> number_less t t"
  by (cases t) simp_all

lemma number_less_iff:
  "number_less s t = (\<exists>a b. s = Ms a \<and> t = Ms b \<and> a < b)"
  by (cases s; cases t) simp_all

text \<open>
  Claim C7. For every pair of dates, \<^verbatim>\<open>isDateBefore\<close> answers true exactly when both
  time values are numbers and the first is strictly smaller than the second in
  milliseconds; in particular it answers false when the two time values are equal. The
  helper is a function of its two arguments alone: it reads no state and changes none.
\<close>

theorem isDateBefore_strictly_earlier:
  "(isDateBefore date1 date2 \<longleftrightarrow>
      (\<exists>a b. getTime date1 = Ms a \<and> getTime date2 = Ms b \<and> a < b))
   \<and> (getTime date1 = getTime date2 \<longrightarrow> \<not> isDateBefore date1 date2)"
  by (auto simp: isDateBefore_def number_less_iff)

theorem isDateBefore_strictly_earlier_witness:
  "isDateBefore (Date (Ms 1609459200000)) (Date (Ms 1638316800000))
   \<and> \<not> isDateBefore (Date (Ms 1638316800000)) (Date (Ms 1609459200000))
   \<and> (getTime (Date (Ms 1609459200000)) = getTime (Date (Ms 1609459200000))
        \<and> \<not> isDateBefore (Date (Ms 1609459200000)) (Date (Ms 1609459200000)))"
  using isDateBefore_strictly_earlier [of "Date (Ms 1609459200000)" "Date (Ms 1638316800000)"]
    isDateBefore_strictly_earlier [of "Date (Ms 1638316800000)" "Date (Ms 1609459200000)"]
    isDateBefore_strictly_earlier [of "Date (Ms 1609459200000)" "Date (Ms 1609459200000)"]
  by simp

text \<open>
  Claim C10. For two posts whose publication time values are equal, the comparator
  returns \<open>-1\<close> for the pair in either order; and for no pair of posts at all does it
  return 0. So no two posts ever compare as equal, and the guarantee of a stable sort
  (elements that compare as equal keep their order) says nothing about posts with the
  same time value.
\<close>

theorem comparePosts_ties:
  "(getTime (pubDate (data A)) = getTime (pubDate (data B)) \<longrightarrow>
      comparePosts A B = - 1 \<and> comparePosts B A = - 1)
   \<and> comparePosts A B \<noteq> 0 \<and> comparePosts B A \<noteq> 0"
  by (simp add: comparePosts_def isDateBefore_def)

theorem comparePosts_ties_witness:
  "getTime (pubDate (data \<lparr>slug = ''a'', data = \<lparr>title = ''A'', pubDate = Date (Ms 5), draft = False\<rparr>\<rparr>))
     = getTime (pubDate (data \<lparr>slug = ''b'', data = \<lparr>title = ''B'', pubDate = Date (Ms 5), draft = False\<rparr>\<rparr>))
   \<and> comparePosts \<lparr>slug = ''a'', data = \<lparr>title = ''A'', pubDate = Date (Ms 5), draft = False\<rparr>\<rparr>
        \<lparr>slug = ''b'', data = \<lparr>title = ''B'', pubDate = Date (Ms 5), draft = False\<rparr>\<rparr> = - 1
   \<and> comparePosts \<lparr>slug = ''b'', data = \<lparr>title = ''B'', pubDate = Date (Ms 5), draft = False\<rparr>\<rparr>
        \<lparr>slug = ''a'', data = \<lparr>title = ''A'', pubDate = Date (Ms 5), draft = False\<rparr>\<rparr> = - 1"
  using comparePosts_ties
    [of "\<lparr>slug = ''a'', data = \<lparr>title = ''A'', pubDate = Date (Ms 5), draft = False\<rparr>\<rparr>"
        "\<lparr>slug = ''b'', data = \<lparr>title = ''B'', pubDate = Date (Ms 5), draft = False\<rparr>\<rparr>"]
  by simp

section \<open>The array sort\<close>

subsection \<open>Sorting rearranges\<close>


lemma mset_insert_at: "mset (insert_at k x ws) = add_mset x (mset ws)"
proof -
  have "mset (take k ws) + mset (drop k ws) = mset ws"
    by (metis append_take_drop_id mset_append)
  then show ?thesis by (simp add: insert_at_def)
qed

lemma mset_place_pivot: "mset (place_pivot cmp ws x) = add_mset x (mset ws)"
  by (simp add: place_pivot_def mset_insert_at)

lemma mset_foldl_place_pivot:
  "mset (foldl (place_pivot cmp) ws xs) = mset ws + mset xs"
  by (induction xs arbitrary: ws) (simp_all add: mset_place_pivot)

lemma run_extension_le: "run_extension cmp d prev rest \<le> length rest"
  by (induction rest arbitrary: prev) auto

lemma CountAndMakeRun_shape:
  assumes "CountAndMakeRun cmp (high # low # rest) = (n, ws)"
  shows "n = 2 + run_extension cmp (cmp low high < 0) low rest"
    and "ws = (if cmp low high < 0
               then rev (take n (high # low # rest)) @ drop n (high # low # rest)
               else high # low # rest)"
proof -
  from assms have "(2 + run_extension cmp (cmp low high < 0) low rest,
      if cmp low high < 0
      then rev (take (2 + run_extension cmp (cmp low high < 0) low rest) (high # low # rest))
           @ drop (2 + run_extension cmp (cmp low high < 0) low rest) (high # low # rest)
      else high # low # rest) = (n, ws)"
    by (simp only: CountAndMakeRun_def list.case Let_def)
  then show "n = 2 + run_extension cmp (cmp low high < 0) low rest"
    and "ws = (if cmp low high < 0
               then rev (take n (high # low # rest)) @ drop n (high # low # rest)
               else high # low # rest)"
    by (simp_all only: prod.inject) (blast+)
qed

lemma CountAndMakeRun_length:
  assumes "CountAndMakeRun cmp xs = (n, ws)"
  shows "n \<le> length xs"
proof (cases xs rule: remdups_adj.cases)
  case (3 high low rest)
  from CountAndMakeRun_shape(1) [OF assms [unfolded 3]]
    run_extension_le [of cmp "cmp low high < 0" low rest] 3
  show ?thesis by simp
qed (use assms in \<open>auto simp: CountAndMakeRun_def\<close>)

lemma mset_CountAndMakeRun:
  assumes "CountAndMakeRun cmp xs = (n, ws)"
  shows "mset ws = mset xs"
proof (cases xs rule: remdups_adj.cases)
  case (3 high low rest)
  have rearranged: "mset (rev (take n xs) @ drop n xs) = mset xs"
    by (metis append_take_drop_id mset_append mset_rev)
  show ?thesis
  proof (cases "cmp low high < 0")
    case True
    with CountAndMakeRun_shape(2) [OF assms [unfolded 3]] 3
    have "ws = rev (take n xs) @ drop n xs" by (simp only: if_True)
    with rearranged show ?thesis by (simp only:)
  next
    case False
    with CountAndMakeRun_shape(2) [OF assms [unfolded 3]] 3
    have "ws = xs" by (simp only: if_False)
    then show ?thesis by (simp only:)
  qed
qed (use assms in \<open>auto simp: CountAndMakeRun_def\<close>)

lemma mset_BinaryInsertionSort: "mset (BinaryInsertionSort cmp n ws) = mset ws"
proof -
  have "mset (take n ws) + mset (drop n ws) = mset ws"
    by (metis append_take_drop_id mset_append)
  then show ?thesis
    by (simp add: BinaryInsertionSort_def mset_foldl_place_pivot)
qed

lemma mset_array_sort: "mset (array_sort cmp xs) = mset xs"
proof (cases "length xs < 2")
  case True
  then show ?thesis by (simp add: array_sort_def)
next
  case False
  obtain n ws where run: "CountAndMakeRun cmp xs = (n, ws)" by (cases "CountAndMakeRun cmp xs")
  with False show ?thesis
    by (simp add: array_sort_def mset_BinaryInsertionSort mset_CountAndMakeRun [OF run])
qed

lemma set_array_sort: "set (array_sort cmp xs) = set xs"
  by (metis mset_array_sort set_mset_mset)

lemma length_array_sort: "length (array_sort cmp xs) = length xs"
  by (metis mset_array_sort size_mset)

subsection \<open>The binary search splits a descending prefix at the pivot\<close>

lemma midpoint_bounds: "left < right \<Longrightarrow> left \<le> midpoint left right \<and> midpoint left right < right"
  by (simp add: midpoint_def) 

lemma find_insertion_point_bounds:
  "left \<le> right \<Longrightarrow>
     left \<le> find_insertion_point cmp pivot ws left right
     \<and> find_insertion_point cmp pivot ws left right \<le> right"
proof (induction cmp pivot ws left right rule: find_insertion_point.induct)
  case (1 cmp pivot ws left right)
  show ?case
  proof (cases "left < right")
    case False
    with "1.prems" show ?thesis by simp
  next
    case True
    note mb = midpoint_bounds [OF True]
    show ?thesis
    proof (cases "cmp pivot (ws ! midpoint left right) < 0")
      case neg: True
      from "1.IH"(1) [OF True neg] mb True neg show ?thesis
        by (subst (1 2) find_insertion_point.simps) simp
    next
      case nonneg: False
      from "1.IH"(2) [OF True nonneg] mb True nonneg show ?thesis
        by (subst (1 2) find_insertion_point.simps) simp
    qed
  qed
qed


lemma descending_nth:
  "descending key ws \<Longrightarrow> i \<le> j \<Longrightarrow> j < length ws \<Longrightarrow> key (ws ! j) \<le> key (ws ! i)"
  by (cases "i = j") (auto simp: descending_def sorted_wrt_iff_nth_less)

lemma find_insertion_point_split:
  assumes "sign_agrees cmp key S" "set ws \<subseteq> S" "pivot \<in> S" "descending key ws"
    and "left \<le> right" "right \<le> length ws"
    and "\<forall>i<left. key pivot < key (ws ! i)"
    and "\<forall>i. right \<le> i \<and> i < length ws \<longrightarrow> key (ws ! i) \<le> key pivot"
  shows "(\<forall>i < find_insertion_point cmp pivot ws left right. key pivot < key (ws ! i))
       \<and> (\<forall>i. find_insertion_point cmp pivot ws left right \<le> i \<and> i < length ws
             \<longrightarrow> key (ws ! i) \<le> key pivot)"
  using assms
proof (induction cmp pivot ws left right rule: find_insertion_point.induct)
  case (1 cmp pivot ws left right)
  show ?case
  proof (cases "left < right")
    case False
    with "1.prems" have "left = right" by simp
    with "1.prems" show ?thesis by simp
  next
    case True
    let ?mid = "midpoint left right"
    note mb = midpoint_bounds [OF True]
    from mb "1.prems" have mid_len: "?mid < length ws" by simp
    then have mid_S: "ws ! ?mid \<in> S" using "1.prems"(2) by auto
    have agree: "(cmp pivot (ws ! ?mid) < 0) = (key (ws ! ?mid) \<le> key pivot)"
      using "1.prems"(1,3) mid_S by (simp add: sign_agrees_def)
    show ?thesis
    proof (cases "cmp pivot (ws ! ?mid) < 0")
      case neg: True
      have right': "\<forall>i. ?mid \<le> i \<and> i < length ws \<longrightarrow> key (ws ! i) \<le> key pivot"
      proof (intro allI impI)
        fix i assume i: "?mid \<le> i \<and> i < length ws"
        then have "key (ws ! i) \<le> key (ws ! ?mid)"
          using descending_nth [OF "1.prems"(4)] by simp
        with neg agree show "key (ws ! i) \<le> key pivot" by simp
      qed
      have "left \<le> ?mid" "?mid \<le> length ws" using mb mid_len by simp_all
      from "1.IH"(1) [OF True neg "1.prems"(1-4) this "1.prems"(7) right'] True neg
      show ?thesis by (subst (1 2) find_insertion_point.simps) simp
    next
      case nonneg: False
      have left': "\<forall>i<?mid + 1. key pivot < key (ws ! i)"
      proof (intro allI impI)
        fix i assume i: "i < ?mid + 1"
        then have "key (ws ! ?mid) \<le> key (ws ! i)"
          using descending_nth [OF "1.prems"(4), of i ?mid] mid_len by simp
        with nonneg agree show "key pivot < key (ws ! i)" by simp
      qed
      have "?mid + 1 \<le> right" using mb by simp
      from "1.IH"(2) [OF True nonneg "1.prems"(1-4) this "1.prems"(6) left' "1.prems"(8)] True nonneg
      show ?thesis by (subst (1 2) find_insertion_point.simps) simp
    qed
  qed
qed


subsection \<open>Placing a pivot keeps the prefix descending\<close>

lemma descending_insert_at:
  assumes "descending key ws" "k \<le> length ws"
    and "\<forall>i<k. key x < key (ws ! i)"
    and "\<forall>i. k \<le> i \<and> i < length ws \<longrightarrow> key (ws ! i) \<le> key x"
  shows "descending key (insert_at k x ws)"
proof -
  have parts: "sorted_wrt (\<lambda>a b. key b \<le> key a) (take k ws)"
    "sorted_wrt (\<lambda>a b. key b \<le> key a) (drop k ws)"
    using assms(1) by (simp_all add: descending_def)
  have before: "\<forall>a\<in>set (take k ws). key x \<le> key a"
  proof
    fix a assume "a \<in> set (take k ws)"
    then obtain i where "i < length (take k ws)" "a = take k ws ! i"
      by (auto simp: in_set_conv_nth)
    with assms(2,3) show "key x \<le> key a" by (simp add: less_imp_le)
  qed
  have after: "\<forall>b\<in>set (drop k ws). key b \<le> key x"
  proof
    fix b assume "b \<in> set (drop k ws)"
    then obtain i where "i < length (drop k ws)" "b = drop k ws ! i"
      by (auto simp: in_set_conv_nth)
    with assms(2,4) show "key b \<le> key x" by simp
  qed
  have cross: "\<forall>a\<in>set (take k ws). \<forall>b\<in>set (drop k ws). key b \<le> key a"
    using before after by (meson order_trans)
  from parts before after cross show ?thesis
    by (simp add: descending_def insert_at_def sorted_wrt_append)
qed

lemma descending_place_pivot:
  assumes "sign_agrees cmp key S" "set ws \<subseteq> S" "pivot \<in> S" "descending key ws"
  shows "descending key (place_pivot cmp ws pivot)"
proof -
  let ?k = "find_insertion_point cmp pivot ws 0 (length ws)"
  have "?k \<le> length ws"
    using find_insertion_point_bounds [of 0 "length ws" cmp pivot ws] by simp
  moreover have "(\<forall>i<?k. key pivot < key (ws ! i))
      \<and> (\<forall>i. ?k \<le> i \<and> i < length ws \<longrightarrow> key (ws ! i) \<le> key pivot)"
    using find_insertion_point_split [OF assms, of 0 "length ws"] by simp
  ultimately show ?thesis
    unfolding place_pivot_def using descending_insert_at [OF assms(4)] by blast
qed

lemma set_place_pivot: "set (place_pivot cmp ws x) = insert x (set ws)"
  by (metis mset_place_pivot set_mset_add_mset_insert set_mset_mset)

lemma descending_foldl_place_pivot:
  assumes "sign_agrees cmp key S"
  shows "set ws \<subseteq> S \<Longrightarrow> set xs \<subseteq> S \<Longrightarrow> descending key ws
    \<Longrightarrow> descending key (foldl (place_pivot cmp) ws xs)"
proof (induction xs arbitrary: ws)
  case Nil
  then show ?case by simp
next
  case (Cons x xs)
  from Cons.prems have x: "x \<in> S" and xs: "set xs \<subseteq> S" by simp_all
  have "descending key (place_pivot cmp ws x)"
    using descending_place_pivot [OF assms Cons.prems(1) x Cons.prems(3)] .
  moreover have "set (place_pivot cmp ws x) \<subseteq> S"
    using Cons.prems(1) x by (simp add: set_place_pivot)
  ultimately show ?case using Cons.IH xs by simp
qed

subsection \<open>The run at the start is descending once it is made\<close>

lemma run_extension_ascending:
  assumes "sign_agrees cmp key S"
  shows "prev \<in> S \<Longrightarrow> set rest \<subseteq> S
    \<Longrightarrow> sorted_wrt (\<lambda>a b. key a \<le> key b) (prev # take (run_extension cmp True prev rest) rest)"
proof (induction rest arbitrary: prev)
  case Nil
  then show ?case by simp
next
  case (Cons cur rest)
  have tr: "transp (\<lambda>a b. key a \<le> key b)" by (auto intro: transpI)
  from Cons.prems have cur: "cur \<in> S" and rest: "set rest \<subseteq> S" by simp_all
  have sign: "(cmp cur prev < 0) = (key prev \<le> key cur)"
    using assms cur Cons.prems(1) by (simp add: sign_agrees_def)
  show ?case
  proof (cases "cmp cur prev < 0")
    case True
    with sign Cons.IH [OF cur rest] show ?thesis
      by (simp add: sorted_wrt2 [OF tr] del: sorted_wrt.simps)
  next
    case False
    then show ?thesis by simp
  qed
qed

lemma run_extension_descending:
  assumes "sign_agrees cmp key S"
  shows "prev \<in> S \<Longrightarrow> set rest \<subseteq> S
    \<Longrightarrow> sorted_wrt (\<lambda>a b. key b < key a) (prev # take (run_extension cmp False prev rest) rest)"
proof (induction rest arbitrary: prev)
  case Nil
  then show ?case by simp
next
  case (Cons cur rest)
  have tr: "transp (\<lambda>a b. key b < key a)" by (auto intro: transpI)
  from Cons.prems have cur: "cur \<in> S" and rest: "set rest \<subseteq> S" by simp_all
  have sign: "(cmp cur prev < 0) = (key prev \<le> key cur)"
    using assms cur Cons.prems(1) by (simp add: sign_agrees_def)
  show ?case
  proof (cases "cmp cur prev < 0")
    case True
    then show ?thesis by simp
  next
    case False
    with sign have "key cur < key prev" by simp
    with False Cons.IH [OF cur rest] show ?thesis
      by (simp add: sorted_wrt2 [OF tr] del: sorted_wrt.simps)
  qed
qed

lemma descending_CountAndMakeRun:
  assumes "sign_agrees cmp key S" "set xs \<subseteq> S" "CountAndMakeRun cmp xs = (n, ws)"
  shows "descending key (take n ws)"
proof (cases xs rule: remdups_adj.cases)
  case 1
  with assms(3) show ?thesis by (simp add: CountAndMakeRun_def descending_def)
next
  case (2 x)
  with assms(3) show ?thesis by (auto simp: CountAndMakeRun_def descending_def)
next
  case (3 high low rest)
  with assms(2) have high: "high \<in> S" and low: "low \<in> S" and rest: "set rest \<subseteq> S"
    by simp_all
  have sign: "(cmp low high < 0) = (key high \<le> key low)"
    using assms(1) high low by (simp add: sign_agrees_def)
  show ?thesis
  proof (cases "cmp low high < 0")
    case True
    let ?k = "run_extension cmp True low rest"
    have tr: "transp (\<lambda>a b. key a \<le> key b)" by (auto intro: transpI)
    from True CountAndMakeRun_shape [OF assms(3) [unfolded 3]] 3
    have n: "n = 2 + ?k" and ws: "ws = rev (take n xs) @ drop n xs"
      by (simp_all only: if_True)
    have run: "take n xs = high # low # take ?k rest"
      using 3 n by simp
    have "n \<le> length xs"
      using CountAndMakeRun_length [OF assms(3)] by simp
    then have prefix: "take n ws = rev (take n xs)"
      using ws by simp
    have "sorted_wrt (\<lambda>a b. key a \<le> key b) (high # low # take ?k rest)"
      using run_extension_ascending [OF assms(1) low rest] True sign
      by (simp add: sorted_wrt2 [OF tr] del: sorted_wrt.simps)
    then have "sorted_wrt (\<lambda>a b. key a \<le> key b) (take n xs)"
      by (simp only: run)
    then have "sorted_wrt (\<lambda>a b. key b \<le> key a) (rev (take n xs))"
      by (simp only: sorted_wrt_rev)
    with prefix show ?thesis by (simp only: descending_def)
  next
    case False
    let ?k = "run_extension cmp False low rest"
    have tr: "transp (\<lambda>a b. key b < key a)" by (auto intro: transpI)
    from False CountAndMakeRun_shape [OF assms(3) [unfolded 3]] 3
    have n: "n = 2 + ?k" and ws: "ws = xs"
      by (simp_all only: if_False)
    have run: "take n ws = high # low # take ?k rest"
      using 3 n ws by simp
    from False sign have "key low < key high" by simp
    then have "sorted_wrt (\<lambda>a b. key b < key a) (high # low # take ?k rest)"
      using run_extension_descending [OF assms(1) low rest]
      by (simp add: sorted_wrt2 [OF tr] del: sorted_wrt.simps)
    then have "sorted_wrt (\<lambda>a b. key b \<le> key a) (high # low # take ?k rest)"
      by (rule sorted_wrt_mono_rel [rotated]) simp
    with run show ?thesis by (simp add: descending_def del: sorted_wrt.simps)
  qed
qed

lemma descending_array_sort:
  assumes "sign_agrees cmp key S" "set xs \<subseteq> S"
  shows "descending key (array_sort cmp xs)"
proof (cases "length xs < 2")
  case True
  then have "length xs \<le> 1" by simp
  with True show ?thesis
    by (simp add: array_sort_def descending_def sorted_wrt01)
next
  case False
  obtain n ws where run: "CountAndMakeRun cmp xs = (n, ws)" by (cases "CountAndMakeRun cmp xs")
  have "set ws = set xs"
    using mset_CountAndMakeRun [OF run] by (metis set_mset_mset)
  with assms(2) set_take_subset [of n ws] set_drop_subset [of n ws]
  have "set (take n ws) \<subseteq> S" "set (drop n ws) \<subseteq> S"
    by blast+
  from descending_foldl_place_pivot [OF assms(1) this descending_CountAndMakeRun [OF assms run]]
  show ?thesis using False run
    by (simp add: array_sort_def BinaryInsertionSort_def)
qed

subsection \<open>A strictly descending array is left as it is\<close>

lemma place_pivot_at_end:
  assumes "sign_agrees cmp key S" "set ws \<subseteq> S" "pivot \<in> S" "descending key ws"
    and "\<forall>a\<in>set ws. key pivot < key a"
  shows "place_pivot cmp ws pivot = ws @ [pivot]"
proof -
  let ?k = "find_insertion_point cmp pivot ws 0 (length ws)"
  have le: "?k \<le> length ws"
    using find_insertion_point_bounds [of 0 "length ws" cmp pivot ws] by simp
  have split: "\<forall>i. ?k \<le> i \<and> i < length ws \<longrightarrow> key (ws ! i) \<le> key pivot"
    using find_insertion_point_split [OF assms(1-4), of 0 "length ws"] by simp
  have "?k = length ws"
  proof (rule ccontr)
    assume "?k \<noteq> length ws"
    with le have lt: "?k < length ws" by simp
    with split have "key (ws ! ?k) \<le> key pivot" by simp
    moreover from lt assms(5) have "key pivot < key (ws ! ?k)" by simp
    ultimately show False by simp
  qed
  then show ?thesis by (simp add: place_pivot_def insert_at_def)
qed

lemma foldl_place_pivot_strict:
  assumes "sign_agrees cmp key S"
  shows "set ws \<subseteq> S \<Longrightarrow> set xs \<subseteq> S \<Longrightarrow> sorted_wrt (\<lambda>a b. key b < key a) (ws @ xs)
    \<Longrightarrow> foldl (place_pivot cmp) ws xs = ws @ xs"
proof (induction xs arbitrary: ws)
  case Nil
  then show ?case by simp
next
  case (Cons x xs)
  from Cons.prems have x: "x \<in> S" and xs: "set xs \<subseteq> S" by simp_all
  from Cons.prems(3) have strict_ws: "sorted_wrt (\<lambda>a b. key b < key a) ws"
    and below: "\<forall>a\<in>set ws. key x < key a"
    by (auto simp: sorted_wrt_append)
  from strict_ws have "descending key ws"
    unfolding descending_def by (rule sorted_wrt_mono_rel [rotated]) simp
  then have step: "place_pivot cmp ws x = ws @ [x]"
    using place_pivot_at_end [OF assms Cons.prems(1) x] below by simp
  have "foldl (place_pivot cmp) (ws @ [x]) xs = (ws @ [x]) @ xs"
    using Cons.IH [of "ws @ [x]"] Cons.prems x xs by simp
  with step show ?case by simp
qed

lemma CountAndMakeRun_strict:
  assumes "sign_agrees cmp key S" "set xs \<subseteq> S" "sorted_wrt (\<lambda>a b. key b < key a) xs"
    and "CountAndMakeRun cmp xs = (n, ws)"
  shows "ws = xs"
proof (cases xs rule: remdups_adj.cases)
  case (3 high low rest)
  with assms(2,3) have "high \<in> S" "low \<in> S" "key low < key high" by simp_all
  with assms(1) have "\<not> cmp low high < 0" by (simp add: sign_agrees_def)
  with CountAndMakeRun_shape(2) [OF assms(4) [unfolded 3]] 3 show ?thesis
    by (simp only: if_False)
qed (use assms(4) in \<open>auto simp: CountAndMakeRun_def\<close>)

lemma array_sort_strict:
  assumes "sign_agrees cmp key S" "set xs \<subseteq> S" "sorted_wrt (\<lambda>a b. key b < key a) xs"
  shows "array_sort cmp xs = xs"
proof (cases "length xs < 2")
  case True
  then show ?thesis by (simp add: array_sort_def)
next
  case False
  obtain n ws where run: "CountAndMakeRun cmp xs = (n, ws)" by (cases "CountAndMakeRun cmp xs")
  have ws: "ws = xs" using CountAndMakeRun_strict [OF assms run] .
  have "set (take n xs) \<subseteq> S" "set (drop n xs) \<subseteq> S"
    using assms(2) set_take_subset [of n xs] set_drop_subset [of n xs] by blast+
  from foldl_place_pivot_strict [OF assms(1) this] assms(3)
  have "foldl (place_pivot cmp) (take n xs) (drop n xs) = xs" by simp
  with False run ws show ?thesis
    by (simp add: array_sort_def BinaryInsertionSort_def)
qed

lemma descending_distinct_strict:
  "descending key xs \<Longrightarrow> distinct (map key xs) \<Longrightarrow> sorted_wrt (\<lambda>a b. key b < key a) xs"
proof (induction xs)
  case Nil
  then show ?case by simp
next
  case (Cons a xs)
  from Cons.prems have tl: "descending key xs" "distinct (map key xs)"
    and le: "\<forall>b\<in>set xs. key b \<le> key a" and new: "key a \<notin> key ` set xs"
    by (simp_all add: descending_def)
  have "\<forall>b\<in>set xs. key b < key a"
  proof
    fix b assume b: "b \<in> set xs"
    with new have "key b \<noteq> key a" by (metis imageI)
    with le b show "key b < key a" by (simp add: less_le)
  qed
  with Cons.IH [OF tl] show ?case by simp
qed

section \<open>The selector\<close>

subsection \<open>The comparator on posts with valid dates\<close>

lemma comparePosts_negative_iff:
  assumes "getTime (pubDate (data x)) \<noteq> NaN" "getTime (pubDate (data y)) \<noteq> NaN"
  shows "(comparePosts x y < 0) = (timestamp y \<le> timestamp x)"
proof -
  from assms obtain a b where "getTime (pubDate (data x)) = Ms a" "getTime (pubDate (data y)) = Ms b"
    by (metis time_value.exhaust)
  then show ?thesis
    by (auto simp: comparePosts_def isDateBefore_def timestamp_def)
qed

lemma sign_agrees_comparePosts:
  "sign_agrees comparePosts timestamp {p. getTime (pubDate (data p)) \<noteq> NaN}"
  by (simp add: sign_agrees_def comparePosts_negative_iff)

lemma isDateBefore_timestamp:
  assumes "getTime (pubDate (data x)) \<noteq> NaN" "getTime (pubDate (data y)) \<noteq> NaN"
  shows "isDateBefore (pubDate (data x)) (pubDate (data y)) = (timestamp x < timestamp y)"
proof -
  from assms obtain a b where "getTime (pubDate (data x)) = Ms a" "getTime (pubDate (data y)) = Ms b"
    by (metis time_value.exhaust)
  then show ?thesis
    by (simp add: isDateBefore_def timestamp_def)
qed

lemma set_getPublishedAndSortedPosts:
  "set (getPublishedAndSortedPosts e allPosts) = {p \<in> set allPosts. keepPost e p}"
  by (simp add: getPublishedAndSortedPosts_def set_array_sort)

lemma filter_getPublishedAndSortedPosts:
  "filter (keepPost e) (getPublishedAndSortedPosts e allPosts) = getPublishedAndSortedPosts e allPosts"
  by (simp add: set_getPublishedAndSortedPosts)

lemma descending_getPublishedAndSortedPosts:
  assumes "\<forall>p\<in>set (filter (keepPost e) allPosts). getTime (pubDate (data p)) \<noteq> NaN"
  shows "descending timestamp (getPublishedAndSortedPosts e allPosts)"
  unfolding getPublishedAndSortedPosts_def
  using assms by (intro descending_array_sort [OF sign_agrees_comparePosts]) auto

subsection \<open>Which posts the output holds\<close>

text \<open>
  Claim C1. For every input and every environment, the output is a rearrangement of
  exactly the input posts that pass the draft filter: as multisets, the output and the
  filtered input are equal, so no post from outside appears and every kept post appears as
  often as in the input. This holds whatever the dates are, valid or not.
\<close>

theorem output_permutation_of_kept:
  "mset (getPublishedAndSortedPosts e allPosts) = filter_mset (keepPost e) (mset allPosts)"
  by (simp add: getPublishedAndSortedPosts_def mset_array_sort)

theorem output_permutation_of_kept_witness:
  "mset [december, january] = filter_mset (keepPost production) (mset [january, june, december])
   \<and> getPublishedAndSortedPosts production [january, june, december] = [december, january]"
proof -
  have out: "getPublishedAndSortedPosts production [january, june, december] = [december, january]"
    by code_simp
  from output_permutation_of_kept [of production "[january, june, december]"] out
  show ?thesis by simp
qed

text \<open>
  Claim C2. In production mode every post of the output has \<open>draft = false\<close>: no draft
  reaches the output.
\<close>

theorem production_hides_drafts:
  assumes "envPROD e" "post \<in> set (getPublishedAndSortedPosts e allPosts)"
  shows "draft (data post) = False"
  using assms by (simp add: set_getPublishedAndSortedPosts keepPost_def)

theorem production_hides_drafts_witness:
  "envPROD production
   \<and> december \<in> set (getPublishedAndSortedPosts production [january, june, december])
   \<and> draft (data december) = False
   \<and> june \<notin> set (getPublishedAndSortedPosts production [january, june, december])"
proof -
  have prod: "envPROD production" by (simp add: production_def)
  have out: "getPublishedAndSortedPosts production [january, june, december] = [december, january]"
    by code_simp
  have mem: "december \<in> set (getPublishedAndSortedPosts production [january, june, december])"
    by (simp add: out)
  have "june \<noteq> december" "june \<noteq> january" by (simp_all add: june_def december_def january_def)
  with prod mem production_hides_drafts [OF prod mem] show ?thesis
    by (simp add: out)
qed

subsection \<open>The order of the output\<close>

text \<open>
  Claim C3, as stated: for every input and every environment the output is in descending
  order of publication date. It fails when a kept post has an invalid date: every
  comparison with that post answers \<open>-1\<close>, whichever way round, and the posts around it
  are no longer compared with each other. Here the January post (position 1) comes before
  the June post (position 3), although it is the earlier one.
\<close>

theorem descending_order_fails_on_invalid_date:
  "getPublishedAndSortedPosts dev_showing_drafts [june, undated, december, january]
     = [december, january, undated, june]
   \<and> (1::nat) < 3
   \<and> 3 < length (getPublishedAndSortedPosts dev_showing_drafts [june, undated, december, january])
   \<and> isDateBefore
         (pubDate (data (getPublishedAndSortedPosts dev_showing_drafts
            [june, undated, december, january] ! 1)))
         (pubDate (data (getPublishedAndSortedPosts dev_showing_drafts
            [june, undated, december, january] ! 3)))"
proof -
  have out: "getPublishedAndSortedPosts dev_showing_drafts [june, undated, december, january]
      = [december, january, undated, june]"
    by code_simp
  show ?thesis
    unfolding out by (simp add: january_def june_def)
qed

text \<open>
  Claim C3, amended. For every input in which every post that passes the draft filter
  has a valid publication date (no time value is NaN), and for every environment, the
  output is in descending order of publication date: for positions \<open>i < j\<close> of the output,
  the post at \<open>i\<close> is not earlier than the post at \<open>j\<close>, by \<^verbatim>\<open>isDateBefore\<close> and by
  millisecond time value.
\<close>

theorem output_descending_by_pubDate:
  assumes "\<forall>p\<in>set (filter (keepPost e) allPosts). getTime (pubDate (data p)) \<noteq> NaN"
    and "i < j" "j < length (getPublishedAndSortedPosts e allPosts)"
  shows "\<not> isDateBefore (pubDate (data (getPublishedAndSortedPosts e allPosts ! i)))
             (pubDate (data (getPublishedAndSortedPosts e allPosts ! j)))
       \<and> timestamp (getPublishedAndSortedPosts e allPosts ! j)
           \<le> timestamp (getPublishedAndSortedPosts e allPosts ! i)"
proof -
  let ?out = "getPublishedAndSortedPosts e allPosts"
  have "descending timestamp ?out"
    using assms(1) by (rule descending_getPublishedAndSortedPosts)
  then have le: "timestamp (?out ! j) \<le> timestamp (?out ! i)"
    using assms(2,3) by (intro descending_nth) simp_all
  have "?out ! i \<in> set ?out" "?out ! j \<in> set ?out"
    using assms(2,3) by simp_all
  then have "?out ! i \<in> set (filter (keepPost e) allPosts)"
    "?out ! j \<in> set (filter (keepPost e) allPosts)"
    unfolding set_getPublishedAndSortedPosts by simp_all
  with assms(1)
  have "getTime (pubDate (data (?out ! i))) \<noteq> NaN" "getTime (pubDate (data (?out ! j))) \<noteq> NaN"
    by blast+
  from isDateBefore_timestamp [OF this] le show ?thesis by simp
qed

theorem output_descending_by_pubDate_witness:
  "getPublishedAndSortedPosts dev_showing_drafts [january, june, december] = [december, june, january]
   \<and> \<not> isDateBefore (pubDate (data december)) (pubDate (data january))
   \<and> timestamp january \<le> timestamp december"
proof -
  have out: "getPublishedAndSortedPosts dev_showing_drafts [january, june, december] = [december, june, january]"
    by code_simp
  have kept: "filter (keepPost dev_showing_drafts) [january, june, december] = [january, june, december]"
    by code_simp
  have valid: "\<forall>p\<in>set (filter (keepPost dev_showing_drafts) [january, june, december]).
      getTime (pubDate (data p)) \<noteq> NaN"
    unfolding kept by (simp add: january_def june_def december_def)
  have len: "2 < length (getPublishedAndSortedPosts dev_showing_drafts [january, june, december])"
    by (simp add: out)
  from output_descending_by_pubDate [OF valid _ len, of 0] out show ?thesis by simp
qed

subsection \<open>The three environments\<close>

text \<open>
  Claim C4. Outside production mode with \<open>showDraftPages = false\<close>, the selector returns
  the same sequence as in production mode, on every input.
\<close>

theorem dev_hiding_drafts_as_production:
  assumes "\<not> envPROD devEnv" "\<not> showDraftPages devEnv" "envPROD prodEnv"
  shows "getPublishedAndSortedPosts devEnv allPosts = getPublishedAndSortedPosts prodEnv allPosts"
proof -
  have "keepPost devEnv = keepPost prodEnv"
    using assms by (auto simp: keepPost_def fun_eq_iff)
  then show ?thesis by (simp add: getPublishedAndSortedPosts_def)
qed

theorem dev_hiding_drafts_as_production_witness:
  "\<not> envPROD dev_hiding_drafts \<and> \<not> showDraftPages dev_hiding_drafts \<and> envPROD production
   \<and> getPublishedAndSortedPosts dev_hiding_drafts [january, june, december] = [december, january]
   \<and> getPublishedAndSortedPosts production [january, june, december] = [december, january]"
proof -
  have h: "\<not> envPROD dev_hiding_drafts" "\<not> showDraftPages dev_hiding_drafts" "envPROD production"
    by (simp_all add: dev_hiding_drafts_def production_def)
  have out: "getPublishedAndSortedPosts production [january, june, december] = [december, january]"
    by code_simp
  from dev_hiding_drafts_as_production [OF h, of "[january, june, december]"] h out
  show ?thesis by simp
qed

text \<open>
  Claim C5. Outside production mode with \<open>showDraftPages = true\<close> the filter keeps every
  input post, draft or not: the filtered sequence is the input sequence, and the output
  holds all input posts, each as often as the input does.
\<close>

theorem dev_showing_drafts_keeps_all:
  assumes "\<not> envPROD e" "showDraftPages e"
  shows "filter (keepPost e) allPosts = allPosts
       \<and> mset (getPublishedAndSortedPosts e allPosts) = mset allPosts"
proof -
  have "filter (keepPost e) allPosts = allPosts"
    using assms by (simp add: keepPost_def)
  then show ?thesis by (simp add: getPublishedAndSortedPosts_def mset_array_sort)
qed

theorem dev_showing_drafts_keeps_all_witness:
  "\<not> envPROD dev_showing_drafts \<and> showDraftPages dev_showing_drafts
   \<and> filter (keepPost dev_showing_drafts) [january, june, december] = [january, june, december]
   \<and> mset (getPublishedAndSortedPosts dev_showing_drafts [january, june, december])
       = mset [january, june, december]"
proof -
  have h: "\<not> envPROD dev_showing_drafts" "showDraftPages dev_showing_drafts"
    by (simp_all add: dev_showing_drafts_def)
  from dev_showing_drafts_keeps_all [OF h, of "[january, june, december]"] h
  show ?thesis by simp
qed

subsection \<open>Applying the selector to its own output\<close>

lemma distinct_timestamps:
  assumes "\<forall>p\<in>set xs. getTime (pubDate (data p)) \<noteq> NaN"
    and "distinct (map (\<lambda>p. getTime (pubDate (data p))) xs)"
  shows "distinct (map timestamp xs)"
proof -
  have "inj_on timestamp (set xs)"
  proof (rule inj_onI)
    fix x y assume x: "x \<in> set xs" and y: "y \<in> set xs" and eq: "timestamp x = timestamp y"
    from assms(1) x y obtain a b where
      ab: "getTime (pubDate (data x)) = Ms a" "getTime (pubDate (data y)) = Ms b"
      by (metis time_value.exhaust)
    with eq have "getTime (pubDate (data x)) = getTime (pubDate (data y))"
      by (simp add: timestamp_def)
    with assms(2) x y show "x = y"
      by (auto simp: distinct_map dest: inj_onD)
  qed
  moreover from assms(2) have "distinct xs" by (simp add: distinct_map)
  ultimately show ?thesis by (simp add: distinct_map)
qed

text \<open>
  Claim C6, as stated: applying the selector to its own output, in the same environment,
  gives that output again. It fails as soon as two kept posts share a time value. The
  comparator answers \<open>-1\<close> for such a pair in either order. The sort asks about the second
  element against the first, \<^verbatim>\<open>comparefn(a[1], a[0])\<close>, reads the negative answer as the
  start of a descending run and reverses the pair; applied to its own output it reverses
  the pair again.
\<close>

theorem idempotence_fails_on_ties:
  "getPublishedAndSortedPosts production [january, january_too] = [january_too, january]
   \<and> getPublishedAndSortedPosts production (getPublishedAndSortedPosts production [january, january_too])
       = [january, january_too]
   \<and> getPublishedAndSortedPosts production (getPublishedAndSortedPosts production [january, january_too])
       \<noteq> getPublishedAndSortedPosts production [january, january_too]"
proof -
  have once: "getPublishedAndSortedPosts production [january, january_too] = [january_too, january]"
    by code_simp
  have twice: "getPublishedAndSortedPosts production [january_too, january] = [january, january_too]"
    by code_simp
  have "january \<noteq> january_too" by (simp add: january_def january_too_def)
  with once twice show ?thesis by simp
qed

text \<open>
  Claim C6, amended. When the kept posts have valid publication dates and no two of them
  share a time value, applying the selector to its own output, in the same environment,
  gives that output again.
\<close>

theorem idempotent_on_distinct_dates:
  assumes "\<forall>p\<in>set (filter (keepPost e) allPosts). getTime (pubDate (data p)) \<noteq> NaN"
    and "distinct (map (\<lambda>p. getTime (pubDate (data p))) (filter (keepPost e) allPosts))"
  shows "getPublishedAndSortedPosts e (getPublishedAndSortedPosts e allPosts)
       = getPublishedAndSortedPosts e allPosts"
proof -
  let ?kept = "filter (keepPost e) allPosts"
  let ?out = "getPublishedAndSortedPosts e allPosts"
  have perm: "mset ?out = mset ?kept"
    by (simp add: getPublishedAndSortedPosts_def mset_array_sort)
  have valid: "set ?out \<subseteq> {p. getTime (pubDate (data p)) \<noteq> NaN}"
    using assms(1) by (auto simp: set_getPublishedAndSortedPosts)
  have "distinct (map timestamp ?kept)"
    using distinct_timestamps [OF assms] .
  moreover have "mset (map timestamp ?out) = mset (map timestamp ?kept)"
    using perm by (metis mset_map)
  ultimately have "distinct (map timestamp ?out)"
    by (metis mset_eq_imp_distinct_iff)
  with descending_getPublishedAndSortedPosts [OF assms(1)]
  have "sorted_wrt (\<lambda>a b. timestamp b < timestamp a) ?out"
    by (rule descending_distinct_strict)
  from array_sort_strict [OF sign_agrees_comparePosts valid this]
  show ?thesis
    by (subst getPublishedAndSortedPosts_def) (simp add: filter_getPublishedAndSortedPosts)
qed

theorem idempotent_on_distinct_dates_witness:
  "getPublishedAndSortedPosts production [january, june, december] = [december, january]
   \<and> getPublishedAndSortedPosts production [december, january] = [december, january]"
proof -
  have kept: "filter (keepPost production) [january, june, december] = [january, december]"
    by code_simp
  have valid: "\<forall>p\<in>set (filter (keepPost production) [january, june, december]).
      getTime (pubDate (data p)) \<noteq> NaN"
    unfolding kept by (simp add: january_def december_def)
  have dist: "distinct (map (\<lambda>p. getTime (pubDate (data p)))
      (filter (keepPost production) [january, june, december]))"
    unfolding kept by (simp add: january_def december_def)
  have out: "getPublishedAndSortedPosts production [january, june, december] = [december, january]"
    by code_simp
  from idempotent_on_distinct_dates [OF valid dist] out show ?thesis by simp
qed

subsection \<open>The caller's array\<close>

text \<open>
  Claim C8. The selector returns a new array and leaves the caller's array as it was:
  after the call the input reference still holds the same posts in the same order, as does
  every other array that existed before; the result is a different reference, and it
  holds the selected posts. (The sort works in place, but on the array that \<^verbatim>\<open>filter\<close>
  has just allocated.)
\<close>

theorem input_array_unmodified:
  assumes "allPosts < length h"
  shows "\<exists>result h'. getPublishedAndSortedPosts_store e allPosts h = Some (result, h')
           \<and> result \<noteq> allPosts
           \<and> h' ! allPosts = h ! allPosts
           \<and> (\<forall>r<length h. h' ! r = h ! r)
           \<and> h' ! result = getPublishedAndSortedPosts e (h ! allPosts)"
  using assms
  by (simp add: getPublishedAndSortedPosts_store_def Array_filter_def Array_sort_def
      getPublishedAndSortedPosts_def nth_append)

theorem input_array_unmodified_witness:
  "(0::nat) < length [[january, june, december]]
   \<and> getPublishedAndSortedPosts_store production 0 [[january, june, december]]
       = Some (1, [[january, june, december], [december, january]])"
proof -
  have inside: "(0::nat) < length [[january, june, december]]" by simp
  from input_array_unmodified [OF inside, of production]
  obtain result h' where
    call: "getPublishedAndSortedPosts_store production 0 [[january, june, december]] = Some (result, h')"
    and fresh: "result \<noteq> 0"
    and same: "h' ! 0 = [[january, june, december]] ! 0"
    and out: "h' ! result = getPublishedAndSortedPosts production ([[january, june, december]] ! 0)"
    by blast
  have "getPublishedAndSortedPosts_store production 0 [[january, june, december]]
     = Some (1, [[january, june, december], [december, january]])"
    by code_simp
  with call inside show ?thesis by simp
qed

subsection \<open>Posts without a valid date\<close>

text \<open>
  Claim C9, as stated: when some post has no comparable publication date, the selector
  fails with \<open>InvalidRecord\<close> instead of returning a mis-sorted sequence. The source has no
  such check. On an input with an invalid date the call returns, and here the result is
  out of order: the January post comes before the June post.
\<close>

theorem invalid_date_raises_nothing:
  "getTime (pubDate (data undated)) = NaN
   \<and> getPublishedAndSortedPosts_call dev_showing_drafts [june, undated, december, january]
       = Return [december, january, undated, june]
   \<and> getPublishedAndSortedPosts_call dev_showing_drafts [june, undated, december, january]
       \<noteq> Throw InvalidRecord
   \<and> isDateBefore (pubDate (data january)) (pubDate (data june))"
proof -
  have "getPublishedAndSortedPosts dev_showing_drafts [june, undated, december, january]
      = [december, january, undated, june]"
    by code_simp
  then show ?thesis
    by (simp add: getPublishedAndSortedPosts_call_def undated_def january_def june_def)
qed

text \<open>
  Claim C9, amended. The selector raises no error on any input. Also when the publication
  date of some post is invalid (its time value NaN) the call returns, and what it returns
  is a rearrangement of the posts that pass the filter; and when every post has a valid
  date no error is raised either.
\<close>

theorem call_always_returns:
  "getPublishedAndSortedPosts_call e allPosts = Return (getPublishedAndSortedPosts e allPosts)
   \<and> getPublishedAndSortedPosts_call e allPosts \<noteq> Throw InvalidRecord
   \<and> mset (getPublishedAndSortedPosts e allPosts) = filter_mset (keepPost e) (mset allPosts)"
  by (simp add: getPublishedAndSortedPosts_call_def getPublishedAndSortedPosts_def mset_array_sort)

theorem call_always_returns_witness:
  "getTime (pubDate (data undated)) = NaN
   \<and> getPublishedAndSortedPosts_call production [undated, january] = Return [january, undated]
   \<and> getPublishedAndSortedPosts_call production [undated, january] \<noteq> Throw InvalidRecord"
proof -
  have out: "getPublishedAndSortedPosts production [undated, january] = [january, undated]"
    by code_simp
  from call_always_returns [of production "[undated, january]"] out
  show ?thesis by (simp add: undated_def)
qed

end
